theory Spec2Isabelle
  imports Main "HOL-Library.Word" "HOL-Library.Multiset"
begin

unbundle bit_operations_syntax

section \<open>Data model (hdc\_core.h, hdc\_encode.h)\<close>

text \<open>
  \<^verbatim>\<open>typedef uint8_t hv_t[HV_BYTES];\<close> A hypervector is an array of 16 bytes, modelled as
  a list of 8-bit words; every theorem about a hypervector carries the hypothesis that the
  list has \<open>HV_BYTES\<close> elements. \<^verbatim>\<open>uint8_t\<close>, \<^verbatim>\<open>uint16_t\<close> and \<^verbatim>\<open>uint32_t\<close> are \<open>8 word\<close>,
  \<open>16 word\<close> and \<open>32 word\<close>. The loop counters \<^verbatim>\<open>uint8_t i\<close> only ever hold array indices
  below 32 and are natural numbers in the model.

  C evaluates \<^verbatim>\<open>uint8_t\<close> operands after promotion to \<^verbatim>\<open>int\<close>/\<^verbatim>\<open>unsigned\<close> (16 bits on the
  ATmega328P, 32 bits on the native test platform) and truncates on assignment to a
  \<^verbatim>\<open>uint8_t\<close>. For \<open>+\<close>, \<open>-\<close>, \<open>&\<close>, \<open>|\<close>, \<open>^\<close> and \<open><<\<close> truncation commutes with the
  operation, and \<open>>>\<close>, \<open>/\<close> and \<open>%\<close> are only applied to values held in a \<^verbatim>\<open>uint8_t\<close>, so
  the same operations on \<open>8 word\<close> give the stored byte. \<^verbatim>\<open>HV_DIMENSIONS\<close> (\<^verbatim>\<open>128U\<close>) only
  occurs in expressions stored to a \<^verbatim>\<open>uint8_t\<close> and is a byte in the model.
\<close>

type_synonym hv = "8 word list"

definition HV_DIMENSIONS :: "8 word" where
  "HV_DIMENSIONS = 128"

definition HV_BYTES :: nat where
  "HV_BYTES = 16"

definition THERMO_LEVELS :: "32 word" where
  "THERMO_LEVELS = 128"

definition ADC_MAX :: "16 word" where
  "ADC_MAX = 1023"

text \<open>Undefined behaviour of the C program is a value of the model.\<close>

datatype fault = Division_By_Zero | Out_Of_Bounds

text \<open>
  Bit \<open>p\<close> of a hypervector: byte \<open>p / 8\<close>, bit \<open>p % 8\<close> of that byte, least significant
  bit first. The number of set bits, counted position by position.
\<close>

definition hv_bit :: "hv \<Rightarrow> nat \<Rightarrow> bool" where
  "hv_bit hv p = bit (hv ! (p div 8)) (p mod 8)"

definition set_bits :: "hv \<Rightarrow> nat" where
  "set_bits hv = length (filter (hv_bit hv) [0..<8 * HV_BYTES])"

definition zero_vector :: hv where
  "zero_vector = replicate HV_BYTES 0"

definition all_ones_vector :: hv where
  "all_ones_vector = replicate HV_BYTES 0xFF"

definition complement :: "hv \<Rightarrow> hv" where
  "complement a = map NOT a"

section \<open>Whole-vector memory operations (hdc\_core.c)\<close>

text \<open>
  Modelled from the spec: \<^verbatim>\<open>memset\<close> and \<^verbatim>\<open>memcpy\<close> are functions of the C library, not of
  this repository. Both are the byte-wise operations of \<^verbatim>\<open>string.h\<close>: \<open>n\<close> bytes, in
  ascending order.
\<close>

definition memset :: "hv \<Rightarrow> 8 word \<Rightarrow> nat \<Rightarrow> hv" where
  "memset s c n = fold (\<lambda>i buf. buf[i := c]) [0..<n] s"

definition memcpy :: "hv \<Rightarrow> hv \<Rightarrow> nat \<Rightarrow> hv" where
  "memcpy dest src n = fold (\<lambda>i buf. buf[i := src ! i]) [0..<n] dest"

definition hdc_clear :: "hv \<Rightarrow> hv" where
  "hdc_clear hv = memset hv 0 HV_BYTES"

definition hdc_fill :: "hv \<Rightarrow> 8 word \<Rightarrow> hv" where
  "hdc_fill hv v = memset hv v HV_BYTES"

definition hdc_copy :: "hv \<Rightarrow> hv \<Rightarrow> hv" where
  "hdc_copy dest src = memcpy dest src HV_BYTES"

subsection \<open>\<^verbatim>\<open>hdc_copy\<close> on a byte-addressed memory\<close>

text \<open>
  Whether \<^verbatim>\<open>dest\<close> and \<^verbatim>\<open>src\<close> are the same buffer is invisible when buffers are passed as
  values, so the aliasing of \<^verbatim>\<open>hdc_copy\<close> is stated on a memory: a map from addresses to
  bytes, with \<^verbatim>\<open>dest\<close> and \<^verbatim>\<open>src\<close> as addresses.

  Modelled from the spec: \<^verbatim>\<open>memcpy\<close> is a function of the C library, not of this
  repository. The spec has the memory operations "operate byte-wise"; the copy below moves
  one byte at a time, in ascending order, reading each source byte from the memory as it is
  at that moment.
\<close>

type_synonym memory = "nat \<Rightarrow> 8 word"

definition memcpy_mem :: "memory \<Rightarrow> nat \<Rightarrow> nat \<Rightarrow> nat \<Rightarrow> memory" where
  "memcpy_mem m dest src n = fold (\<lambda>i m'. m'(dest + i := m' (src + i))) [0..<n] m"

definition hdc_copy_mem :: "memory \<Rightarrow> nat \<Rightarrow> nat \<Rightarrow> memory" where
  "hdc_copy_mem m dest src = memcpy_mem m dest src HV_BYTES"

definition load_hv :: "memory \<Rightarrow> nat \<Rightarrow> hv" where
  "load_hv m p = map (\<lambda>i. m (p + i)) [0..<HV_BYTES]"

section \<open>Population count and bitwise operations (hdc\_core.c)\<close>

definition hdc_popcount8 :: "8 word \<Rightarrow> 8 word" where
  "hdc_popcount8 byte0 =
     (let byte1 = byte0 - (drop_bit 1 byte0 AND 0x55);
          byte2 = (byte1 AND 0x33) + (drop_bit 2 byte1 AND 0x33)
      in (byte2 + drop_bit 4 byte2) AND 0x0F)"

definition hdc_popcount :: "hv \<Rightarrow> 8 word" where
  "hdc_popcount hv = fold (\<lambda>i count. count + hdc_popcount8 (hv ! i)) [0..<HV_BYTES] 0"

text \<open>
  \<^verbatim>\<open>result\<close>, \<^verbatim>\<open>a\<close> and \<^verbatim>\<open>b\<close> are the contents of the three buffers at the call; the value
  is the content of \<^verbatim>\<open>result\<close> at the return.
\<close>

definition hdc_xor :: "hv \<Rightarrow> hv \<Rightarrow> hv \<Rightarrow> hv" where
  "hdc_xor result a b = fold (\<lambda>i r. r[i := a ! i XOR b ! i]) [0..<HV_BYTES] result"

definition hdc_bundle :: "hv \<Rightarrow> hv \<Rightarrow> hv" where
  "hdc_bundle memory pattern =
     fold (\<lambda>i m. m[i := m ! i OR pattern ! i]) [0..<HV_BYTES] memory"

definition hdc_hamming :: "hv \<Rightarrow> hv \<Rightarrow> 8 word" where
  "hdc_hamming a b =
     fold (\<lambda>i distance. distance + hdc_popcount8 (a ! i XOR b ! i)) [0..<HV_BYTES] 0"

definition hdc_similarity :: "hv \<Rightarrow> hv \<Rightarrow> 8 word" where
  "hdc_similarity a b = HV_DIMENSIONS - hdc_hamming a b"

section \<open>Circular permutation (hdc\_core.c)\<close>

text \<open>
  One iteration of the loop of \<^verbatim>\<open>hdc_permute\<close>, for the source byte \<open>i\<close>. \<^verbatim>\<open>hv[i] << bit_shift\<close>
  is at most \<open>255 * 128\<close> and fits a 16-bit \<^verbatim>\<open>int\<close>.
\<close>

definition permute_step :: "hv \<Rightarrow> 8 word \<Rightarrow> 8 word \<Rightarrow> nat \<Rightarrow> hv \<Rightarrow> hv" where
  "permute_step hv byte_shift bit_shift i temp =
     (let dest_byte = (i + unat byte_shift) mod HV_BYTES in
      if bit_shift = 0 then temp[dest_byte := hv ! i]
      else
        let temp1 = temp[dest_byte := temp ! dest_byte OR push_bit (unat bit_shift) (hv ! i)];
            next_byte = (dest_byte + 1) mod HV_BYTES
        in temp1[next_byte := temp1 ! next_byte OR drop_bit (8 - unat bit_shift) (hv ! i)])"

text \<open>
  \<^verbatim>\<open>hv_t temp\<close> is a local array, cleared before its first use; the model starts it as the
  zero vector, which \<open>hdc_clear\<close> then clears again.
\<close>

definition hdc_permute :: "hv \<Rightarrow> 8 word \<Rightarrow> hv" where
  "hdc_permute hv shifts0 =
     (if shifts0 = 0 then hv
      else
        let shifts = shifts0 mod HV_DIMENSIONS;
            byte_shift = shifts div 8;
            bit_shift = shifts mod 8;
            temp0 = hdc_clear (replicate HV_BYTES 0);
            temp = fold (permute_step hv byte_shift bit_shift) [0..<HV_BYTES] temp0
        in hdc_copy hv temp)"

section \<open>Thermometer encoder (hdc\_encode.c)\<close>

text \<open>The 32-bit unsigned division; dividing by zero is undefined in C.\<close>

definition udiv32 :: "32 word \<Rightarrow> 32 word \<Rightarrow> fault + 32 word" where
  "udiv32 a b = (if b = 0 then Inl Division_By_Zero else Inr (a div b))"

text \<open>A write \<^verbatim>\<open>hv[i] = v\<close> at an index computed from the input.\<close>

definition store_byte :: "hv \<Rightarrow> nat \<Rightarrow> 8 word \<Rightarrow> fault + hv" where
  "store_byte hv i v = (if i < length hv then Inr (hv[i := v]) else Inl Out_Of_Bounds)"

definition fill_step :: "nat \<Rightarrow> fault + hv \<Rightarrow> fault + hv" where
  "fill_step i r = (case r of Inl e \<Rightarrow> Inl e | Inr h \<Rightarrow> store_byte h i 0xFF)"

text \<open>
  \<^verbatim>\<open>level\<close> is the quotient of the 32-bit division cast to \<^verbatim>\<open>uint8_t\<close>. The byte stored for the
  partial byte is \<^verbatim>\<open>(1U << remaining_bits) - 1U\<close> truncated to 8 bits.
\<close>

definition hdc_encode_thermometer :: "hv \<Rightarrow> 16 word \<Rightarrow> 16 word \<Rightarrow> fault + hv" where
  "hdc_encode_thermometer hv0 val max_value =
     (let hv1 = hdc_clear hv0 in
      if val \<ge> max_value then Inr (hdc_fill hv1 0xFF)
      else
        case udiv32 (ucast val * THERMO_LEVELS) (ucast max_value) of
          Inl e \<Rightarrow> Inl e
        | Inr q \<Rightarrow>
            let level = (ucast q :: 8 word);
                full_bytes = level div 8;
                remaining_bits = level mod 8
            in case fold fill_step [0..<unat full_bytes] (Inr hv1) of
                 Inl e \<Rightarrow> Inl e
               | Inr hv2 \<Rightarrow>
                   if unat full_bytes < HV_BYTES \<and> remaining_bits > 0
                   then store_byte hv2 (unat full_bytes) (push_bit (unat remaining_bits) 1 - 1)
                   else Inr hv2)"

definition hdc_encode_adc :: "hv \<Rightarrow> 16 word \<Rightarrow> fault + hv" where
  "hdc_encode_adc hv adc_value = hdc_encode_thermometer hv adc_value ADC_MAX"

text \<open>
  One iteration of the loop of \<^verbatim>\<open>hdc_encode_multi_channel\<close>; the state is the pair of the
  buffers \<^verbatim>\<open>result\<close> and \<^verbatim>\<open>temp\<close>. Reading \<^verbatim>\<open>values[ch]\<close> or \<^verbatim>\<open>basis_vectors[ch]\<close> past the
  end of the caller's array is a fault. \<^verbatim>\<open>hdc_xor(temp, temp, basis_vectors[ch])\<close> passes
  \<^verbatim>\<open>temp\<close> as result and as first operand; iteration \<open>i\<close> of its loop reads byte \<open>i\<close> before
  writing it and touches no other byte, see \<open>hdc_xor_in_place\<close> below.
\<close>

definition multi_channel_step ::
    "16 word list \<Rightarrow> hv list \<Rightarrow> nat \<Rightarrow> fault + hv \<times> hv \<Rightarrow> fault + hv \<times> hv" where
  "multi_channel_step values basis_vectors ch st =
     (case st of
        Inl e \<Rightarrow> Inl e
      | Inr (result, temp) \<Rightarrow>
          if ch < length values \<and> ch < length basis_vectors then
            (case hdc_encode_adc temp (values ! ch) of
               Inl e \<Rightarrow> Inl e
             | Inr temp1 \<Rightarrow>
                 let temp2 = hdc_xor temp1 temp1 (basis_vectors ! ch)
                 in Inr (hdc_bundle result temp2, temp2))
          else Inl Out_Of_Bounds)"

text \<open>
  \<^verbatim>\<open>hv_t temp\<close> is an uninitialised local array: \<^verbatim>\<open>hdc_encode_adc\<close> clears it before any
  read, and the model starts it as the zero vector (\<open>hdc_encode_thermometer_buffer\<close> below:
  the encoder's result does not depend on the buffer's content).
\<close>

definition hdc_encode_multi_channel ::
    "hv \<Rightarrow> 16 word list \<Rightarrow> 8 word \<Rightarrow> hv list \<Rightarrow> fault + hv" where
  "hdc_encode_multi_channel result0 values num_channels basis_vectors =
     (case fold (multi_channel_step values basis_vectors) [0..<unat num_channels]
             (Inr (hdc_clear result0, replicate HV_BYTES 0)) of
        Inl e \<Rightarrow> Inl e
      | Inr (result, temp) \<Rightarrow> Inr result)"

section \<open>Reference notions for the statements\<close>

text \<open>
  These two definitions follow the words of the specification, not the code: the level
  \<open>floor (value * D / max_value)\<close> computed on unbounded natural numbers, and the vector
  whose first \<open>level\<close> bits are set. The theorems below compare the code with them.
\<close>

definition spec_level :: "16 word \<Rightarrow> 16 word \<Rightarrow> nat" where
  "spec_level val max_value = unat val * 128 div unat max_value"

definition spec_thermometer :: "nat \<Rightarrow> hv" where
  "spec_thermometer level =
     map (\<lambda>i. if i < level div 8 then 0xFF else if i = level div 8 then mask (level mod 8) else 0)
       [0..<HV_BYTES]"

text \<open>The number of bit positions at which two vectors differ.\<close>

definition differing :: "hv \<Rightarrow> hv \<Rightarrow> nat" where
  "differing a b = length (filter (\<lambda>p. hv_bit a p \<noteq> hv_bit b p) [0..<8 * HV_BYTES])"

text \<open>
  The content of \<^verbatim>\<open>temp\<close> in \<open>hdc_permute\<close> after the first \<open>n\<close> iterations of its loop,
  for a byte shift \<open>bs\<close> and a bit shift \<open>k\<close>: byte \<open>j\<close> collects the low part of source
  byte \<open>j - bs\<close> and the high part of source byte \<open>j - bs - 1\<close> (indices modulo 16), once
  the loop has reached them.
\<close>

definition rotated :: "hv \<Rightarrow> nat \<Rightarrow> nat \<Rightarrow> nat \<Rightarrow> hv" where
  "rotated hv bs k n =
     map (\<lambda>j. (if (j + 16 - bs) mod 16 < n then push_bit k (hv ! ((j + 16 - bs) mod 16)) else 0)
            OR (if (j + 15 - bs) mod 16 < n then drop_bit (8 - k) (hv ! ((j + 15 - bs) mod 16)) else 0))
       [0..<HV_BYTES]"

text \<open>
  The vector \<open>hdc_encode_adc\<close> produces for a reading, and the pattern a channel
  contributes to the bundle: its encoded reading bound with its basis vector.
\<close>

definition adc_vector :: "16 word \<Rightarrow> hv" where
  "adc_vector v =
     (if ADC_MAX \<le> v then all_ones_vector else spec_thermometer (spec_level v ADC_MAX))"

definition channel_pattern :: "16 word \<times> hv \<Rightarrow> hv" where
  "channel_pattern x = map (\<lambda>i. adc_vector (fst x) ! i XOR snd x ! i) [0..<HV_BYTES]"

text \<open>
  An array rearranged by a permutation \<open>\<pi>\<close> of its indices: element \<open>i\<close> of the new
  array is element \<open>\<pi> i\<close> of the old one.
\<close>

definition reorder :: "(nat \<Rightarrow> nat) \<Rightarrow> 'a list \<Rightarrow> 'a list" where
  "reorder \<pi> xs = map (\<lambda>i. xs ! \<pi> i) [0..<length xs]"

section \<open>Loops over the bytes of a vector\<close>

lemma fold_update_upt:
  "n \<le> length r \<Longrightarrow>
   fold (\<lambda>i r. r[i := g i (r ! i)]) [0..<n] r = map (\<lambda>i. g i (r ! i)) [0..<n] @ drop n r"
proof (induction n)
  case 0
  then show ?case by simp
next
  case (Suc n)
  then have n: "n < length r" by simp
  have "(map (\<lambda>i. g i (r ! i)) [0..<n] @ drop n r)[n := g n (r ! n)]
        = map (\<lambda>i. g i (r ! i)) [0..<n] @ (drop n r)[0 := g n (r ! n)]"
    by (simp add: list_update_append)
  also have "(drop n r)[0 := g n (r ! n)] = g n (r ! n) # drop (Suc n) r"
    using n by (simp add: Cons_nth_drop_Suc [symmetric])
  finally show ?case
    using Suc n by (simp add: nth_append)
qed

lemma fold_update_all:
  "length r = n \<Longrightarrow> fold (\<lambda>i r. r[i := g i (r ! i)]) [0..<n] r = map (\<lambda>i. g i (r ! i)) [0..<n]"
  using fold_update_upt [of n r g] by simp

lemma memset_all: "length s = n \<Longrightarrow> memset s c n = replicate n c"
  unfolding memset_def using fold_update_all [of s n "\<lambda>_ _. c"]
  by (simp add: map_replicate_const)

lemma memcpy_all: "length dest = n \<Longrightarrow> length src = n \<Longrightarrow> memcpy dest src n = src"
  unfolding memcpy_def using fold_update_all [of dest n "\<lambda>i _. src ! i"] map_nth [of src]
  by simp

lemma hdc_clear_eq: "length hv = HV_BYTES \<Longrightarrow> hdc_clear hv = zero_vector"
  by (simp add: hdc_clear_def zero_vector_def memset_all)

lemma hdc_fill_eq: "length hv = HV_BYTES \<Longrightarrow> hdc_fill hv v = replicate HV_BYTES v"
  by (simp add: hdc_fill_def memset_all)

lemma hdc_copy_eq: "length dest = HV_BYTES \<Longrightarrow> length src = HV_BYTES \<Longrightarrow> hdc_copy dest src = src"
  by (simp add: hdc_copy_def memcpy_all)

lemma hdc_xor_eq:
  "length result = HV_BYTES \<Longrightarrow> hdc_xor result a b = map (\<lambda>i. a ! i XOR b ! i) [0..<HV_BYTES]"
  unfolding hdc_xor_def using fold_update_all [of result HV_BYTES "\<lambda>i _. a ! i XOR b ! i"]
  by simp

lemma hdc_xor_in_place:
  "length a = HV_BYTES \<Longrightarrow>
   fold (\<lambda>i t. t[i := t ! i XOR b ! i]) [0..<HV_BYTES] a = hdc_xor a a b"
  using fold_update_all [of a HV_BYTES "\<lambda>i x. x XOR b ! i"] by (simp add: hdc_xor_eq)

lemma hdc_bundle_eq:
  "length memory = HV_BYTES \<Longrightarrow>
   hdc_bundle memory pattern = map (\<lambda>i. memory ! i OR pattern ! i) [0..<HV_BYTES]"
  unfolding hdc_bundle_def
  using fold_update_all [of memory HV_BYTES "\<lambda>i x. x OR pattern ! i"] by simp

lemma length_hdc_xor [simp]: "length result = HV_BYTES \<Longrightarrow> length (hdc_xor result a b) = HV_BYTES"
  by (simp add: hdc_xor_eq)

lemma nth_hdc_xor:
  "length result = HV_BYTES \<Longrightarrow> i < HV_BYTES \<Longrightarrow> hdc_xor result a b ! i = a ! i XOR b ! i"
  by (simp add: hdc_xor_eq)

lemma length_hdc_bundle [simp]:
  "length memory = HV_BYTES \<Longrightarrow> length (hdc_bundle memory pattern) = HV_BYTES"
  by (simp add: hdc_bundle_eq)

lemma nth_hdc_bundle:
  "length memory = HV_BYTES \<Longrightarrow> i < HV_BYTES \<Longrightarrow>
   hdc_bundle memory pattern ! i = memory ! i OR pattern ! i"
  by (simp add: hdc_bundle_eq)

lemma hv_eqI:
  "length a = HV_BYTES \<Longrightarrow> length b = HV_BYTES \<Longrightarrow> (\<And>i. i < HV_BYTES \<Longrightarrow> a ! i = b ! i) \<Longrightarrow> a = b"
  by (simp add: list_eq_iff_nth_eq)

section \<open>Population count\<close>

text \<open>
  \<open>hdc_popcount8\<close> is checked against the bit count on each of the 256 bytes; the sums
  over the 16 bytes stay below 256, so the \<^verbatim>\<open>uint8_t\<close> accumulators never wrap.
\<close>

lemma popcount8_table:
  "list_all (\<lambda>n. unat (hdc_popcount8 (of_nat n)) = length (filter (bit (of_nat n :: 8 word)) [0..<8]))
     [0..<256]"
  by code_simp

lemma hdc_popcount8_bits: "unat (hdc_popcount8 b) = length (filter (bit b) [0..<8])"
proof -
  have "unat b < 256" using unsigned_less [of b] by simp
  then have "unat b \<in> set [0..<256]" by simp
  with popcount8_table
  have "unat (hdc_popcount8 (of_nat (unat b))) = length (filter (bit (of_nat (unat b) :: 8 word)) [0..<8])"
    unfolding list_all_iff by blast
  then show ?thesis by simp
qed

lemma hdc_popcount8_le: "unat (hdc_popcount8 b) \<le> 8"
  using length_filter_le [of "bit b" "[0..<8]"] by (simp add: hdc_popcount8_bits)

lemma length_filter_bytes:
  "length (filter P [0..<8 * n]) =
   sum_list (map (\<lambda>i. length (filter (\<lambda>k. P (8 * i + k)) [0..<8])) [0..<n])"
proof (induction n)
  case 0
  then show ?case by simp
next
  case (Suc n)
  have "[0..<8 * Suc n] = [0..<8 * n] @ [8 * n..<8 * n + 8]"
    by (metis add.commute le_add2 mult_Suc_right upt_add_eq_append zero_le) 
  moreover have "[8 * n..<8 * n + 8] = map (\<lambda>k. 8 * n + k) [0..<8]"
    by (simp add: map_add_upt add.commute)
  ultimately show ?case using Suc by (simp add: filter_map comp_def)
qed

lemma set_bits_bytes:
  "set_bits hv = sum_list (map (\<lambda>i. length (filter (bit (hv ! i)) [0..<8])) [0..<HV_BYTES])"
proof -
  have "\<And>i. filter (\<lambda>k. hv_bit hv (8 * i + k)) [0..<8] = filter (bit (hv ! i)) [0..<8]"
    by (rule filter_cong) (simp_all add: hv_bit_def)
  then show ?thesis by (simp add: set_bits_def length_filter_bytes)
qed

lemma fold_count:
  assumes "\<And>i. i < n \<Longrightarrow> unat (f i) \<le> 8" and "n \<le> 16"
  shows "unat (fold (\<lambda>i (c :: 8 word). c + f i) [0..<n] 0) = sum_list (map (\<lambda>i. unat (f i)) [0..<n])
       \<and> sum_list (map (\<lambda>i. unat (f i)) [0..<n]) \<le> 8 * n"
  using assms
proof (induction n)
  case 0
  then show ?case by simp
next
  case (Suc n)
  then have IH: "unat (fold (\<lambda>i c. c + f i) [0..<n] 0) = sum_list (map (\<lambda>i. unat (f i)) [0..<n])"
    and le: "sum_list (map (\<lambda>i. unat (f i)) [0..<n]) \<le> 8 * n" and fn: "unat (f n) \<le> 8"
    by simp_all
  have "sum_list (map (\<lambda>i. unat (f i)) [0..<n]) + unat (f n) < 2 ^ 8"
    using le fn Suc.prems(2) by simp
  then have "unat (fold (\<lambda>i c. c + f i) [0..<n] 0 + f n) = sum_list (map (\<lambda>i. unat (f i)) [0..<n]) + unat (f n)"
    using IH by (simp add: unat_word_ariths)
  then show ?case using le fn by simp
qed

lemma hdc_popcount_set_bits: "unat (hdc_popcount hv) = set_bits hv"
proof -
  have "unat (fold (\<lambda>i c. c + hdc_popcount8 (hv ! i)) [0..<HV_BYTES] 0)
      = sum_list (map (\<lambda>i. unat (hdc_popcount8 (hv ! i))) [0..<HV_BYTES])"
    by (rule fold_count [THEN conjunct1]) (simp_all add: hdc_popcount8_le HV_BYTES_def)
  then show ?thesis
    by (simp add: hdc_popcount_def set_bits_bytes hdc_popcount8_bits)
qed

lemma set_bits_le: "set_bits hv \<le> 128"
  using length_filter_le [of "hv_bit hv" "[0..<8 * HV_BYTES]"]
  by (simp add: set_bits_def HV_BYTES_def)

lemma hdc_hamming_popcount:
  "length r = HV_BYTES \<Longrightarrow> hdc_hamming a b = hdc_popcount (hdc_xor r a b)"
  unfolding hdc_hamming_def hdc_popcount_def
  by (rule fold_cong) (simp_all add: nth_hdc_xor)

section \<open>Hamming distance\<close>

lemma hv_bit_byte: "k < 8 \<Longrightarrow> hv_bit hv (8 * i + k) = bit (hv ! i) k"
  by (simp add: hv_bit_def)

lemma hv_bit_eqI:
  assumes "length a = HV_BYTES" and "length b = HV_BYTES"
    and bits: "\<And>p. p < 8 * HV_BYTES \<Longrightarrow> hv_bit a p = hv_bit b p"
  shows "a = b"
proof (rule hv_eqI [OF assms(1,2)])
  fix i assume i: "i < HV_BYTES"
  show "a ! i = b ! i"
  proof (rule bit_word_eqI)
    fix k assume "k < LENGTH(8)"
    then have k: "k < 8" by simp
    then have "8 * i + k < 8 * HV_BYTES" using i by simp
    from bits [OF this] show "bit (a ! i) k = bit (b ! i) k"
      using k by (simp add: hv_bit_byte)
  qed
qed

lemma hv_bit_hdc_xor:
  "length r = HV_BYTES \<Longrightarrow> p < 8 * HV_BYTES \<Longrightarrow>
   hv_bit (hdc_xor r a b) p = (hv_bit a p \<noteq> hv_bit b p)"
  by (simp add: hv_bit_def nth_hdc_xor bit_xor_iff less_mult_imp_div_less mult.commute)

lemma hv_bit_complement:
  "length a = HV_BYTES \<Longrightarrow> p < 8 * HV_BYTES \<Longrightarrow> hv_bit (complement a) p = (\<not> hv_bit a p)"
  by (simp add: hv_bit_def complement_def bit_not_iff less_mult_imp_div_less mult.commute)

lemma hdc_hamming_differing: "unat (hdc_hamming a b) = differing a b"
proof -
  let ?r = "replicate HV_BYTES (0 :: 8 word)"
  have "filter (hv_bit (hdc_xor ?r a b)) [0..<8 * HV_BYTES]
      = filter (\<lambda>p. hv_bit a p \<noteq> hv_bit b p) [0..<8 * HV_BYTES]"
    by (rule filter_cong) (simp_all add: hv_bit_hdc_xor)
  then have "set_bits (hdc_xor ?r a b) = differing a b"
    by (simp add: set_bits_def differing_def)
  then show ?thesis
    using hdc_hamming_popcount [of ?r a b] by (simp add: hdc_popcount_set_bits)
qed

lemma differing_le: "differing a b \<le> 128"
  using length_filter_le [of "\<lambda>p. hv_bit a p \<noteq> hv_bit b p" "[0..<8 * HV_BYTES]"]
  by (simp add: differing_def HV_BYTES_def)

lemma differing_zero_iff:
  assumes "length a = HV_BYTES" and "length b = HV_BYTES"
  shows "differing a b = 0 \<longleftrightarrow> a = b"
proof
  assume "differing a b = 0"
  then have "\<And>p. p < 8 * HV_BYTES \<Longrightarrow> hv_bit a p = hv_bit b p"
    by (auto simp: differing_def filter_empty_conv)
  then show "a = b" by (rule hv_bit_eqI [OF assms])
next
  assume "a = b"
  then show "differing a b = 0" by (simp add: differing_def)
qed

lemma differing_all_iff:
  assumes "length a = HV_BYTES" and "length b = HV_BYTES"
  shows "differing a b = 128 \<longleftrightarrow> b = complement a"
proof
  assume d: "differing a b = 128"
  have "length (filter (\<lambda>p. hv_bit a p \<noteq> hv_bit b p) [0..<8 * HV_BYTES])
      + length (filter (\<lambda>p. \<not> (hv_bit a p \<noteq> hv_bit b p)) [0..<8 * HV_BYTES]) = 8 * HV_BYTES"
    using sum_length_filter_compl [of "\<lambda>p. hv_bit a p \<noteq> hv_bit b p" "[0..<8 * HV_BYTES]"]
    by simp
  with d have "filter (\<lambda>p. \<not> (hv_bit a p \<noteq> hv_bit b p)) [0..<8 * HV_BYTES] = []"
    by (simp add: differing_def HV_BYTES_def)
  then have "\<And>p. p < 8 * HV_BYTES \<Longrightarrow> hv_bit b p = hv_bit (complement a) p"
    using assms by (auto simp: filter_empty_conv hv_bit_complement)
  moreover have "length (complement a) = HV_BYTES"
    using assms by (simp add: complement_def)
  ultimately show "b = complement a"
    using assms(2) by (intro hv_bit_eqI)
next
  assume b: "b = complement a"
  have "filter (\<lambda>p. hv_bit a p \<noteq> hv_bit b p) [0..<8 * HV_BYTES] = [0..<8 * HV_BYTES]"
    unfolding filter_id_conv using assms b by (simp add: hv_bit_complement)
  then show "differing a b = 128"
    by (simp add: differing_def HV_BYTES_def)
qed

lemma hdc_hamming_commute: "hdc_hamming a b = hdc_hamming b a"
  by (simp add: hdc_hamming_def xor.commute)

text \<open>
  C5. For all hypervectors \<open>a\<close> and \<open>b\<close>, \<open>hdc_hamming a b\<close> is the number of bit
  positions at which they differ, which is the population count of their XOR; it is
  symmetric, zero exactly when \<open>a = b\<close>, and 128 exactly when \<open>b\<close> is the bit-complement
  of \<open>a\<close>.
\<close>

theorem hdc_hamming_counts_differences:
  assumes "length a = HV_BYTES" and "length b = HV_BYTES"
  shows "unat (hdc_hamming a b)
           = length (filter (\<lambda>p. hv_bit a p \<noteq> hv_bit b p) [0..<8 * HV_BYTES])
       \<and> (\<forall>r. length r = HV_BYTES \<longrightarrow> hdc_hamming a b = hdc_popcount (hdc_xor r a b))
       \<and> hdc_hamming a b = hdc_hamming b a
       \<and> (hdc_hamming a b = 0 \<longleftrightarrow> a = b)
       \<and> (hdc_hamming a b = HV_DIMENSIONS \<longleftrightarrow> b = complement a)"
proof -
  have 1: "unat (hdc_hamming a b)
           = length (filter (\<lambda>p. hv_bit a p \<noteq> hv_bit b p) [0..<8 * HV_BYTES])"
    by (simp add: hdc_hamming_differing differing_def)
  have 2: "\<forall>r. length r = HV_BYTES \<longrightarrow> hdc_hamming a b = hdc_popcount (hdc_xor r a b)"
    by (simp add: hdc_hamming_popcount)
  have 3: "hdc_hamming a b = hdc_hamming b a"
    by (rule hdc_hamming_commute)
  have "hdc_hamming a b = 0 \<longleftrightarrow> unat (hdc_hamming a b) = 0"
    by (simp add: unat_eq_0)
  then have 4: "hdc_hamming a b = 0 \<longleftrightarrow> a = b"
    using differing_zero_iff [OF assms] by (simp add: hdc_hamming_differing)
  have "hdc_hamming a b = HV_DIMENSIONS \<longleftrightarrow> unat (hdc_hamming a b) = 128"
    unfolding HV_DIMENSIONS_def by (simp add: word_unat_eq_iff)
  then have 5: "hdc_hamming a b = HV_DIMENSIONS \<longleftrightarrow> b = complement a"
    using differing_all_iff [OF assms] by (simp add: hdc_hamming_differing)
  from 1 2 3 4 5 show ?thesis by blast
qed


theorem hdc_hamming_counts_differences_witness:
  "unat (hdc_hamming (replicate 16 0x0F) (replicate 16 0xF0))
     = length (filter (\<lambda>p. hv_bit (replicate 16 0x0F) p \<noteq> hv_bit (replicate 16 0xF0) p)
         [0..<8 * HV_BYTES])
   \<and> hdc_hamming (replicate 16 0x0F) (replicate 16 0xF0)
       = hdc_popcount (hdc_xor (replicate 16 0) (replicate 16 0x0F) (replicate 16 0xF0))
   \<and> hdc_hamming (replicate 16 0x0F) (replicate 16 0xF0)
       = hdc_hamming (replicate 16 0xF0) (replicate 16 0x0F)
   \<and> (hdc_hamming (replicate 16 0x0F) (replicate 16 0xF0) = 0)
       = (replicate 16 0x0F = (replicate 16 0xF0 :: hv))
   \<and> (hdc_hamming (replicate 16 0x0F) (replicate 16 0xF0) = HV_DIMENSIONS)
       = (replicate 16 0xF0 = complement (replicate 16 0x0F))"
proof -
  have len: "length (replicate 16 0x0F :: hv) = HV_BYTES" "length (replicate 16 0xF0 :: hv) = HV_BYTES"
    "length (replicate 16 0 :: hv) = HV_BYTES"
    by (simp_all add: HV_BYTES_def)
  from hdc_hamming_counts_differences [OF len(1,2)] len(3) show ?thesis
    by blast
qed

text \<open>
  C6. For all hypervectors \<open>a\<close> and \<open>b\<close>, similarity plus Hamming distance is 128, as
  bytes and as numbers (the subtraction \<open>128 - hamming\<close> does not wrap), similarity is
  symmetric, and it lies between 0 and 128.
\<close>

theorem hdc_similarity_plus_hamming:
  "hdc_similarity a b + hdc_hamming a b = HV_DIMENSIONS
   \<and> unat (hdc_similarity a b) + unat (hdc_hamming a b) = 128
   \<and> hdc_similarity a b = hdc_similarity b a
   \<and> unat (hdc_similarity a b) \<le> 128"
proof -
  have le: "unat (hdc_hamming a b) \<le> 128"
    using differing_le [of a b] by (simp add: hdc_hamming_differing)
  then have "hdc_hamming a b \<le> HV_DIMENSIONS"
    by (simp add: word_le_nat_alt HV_DIMENSIONS_def)
  then have "unat (hdc_similarity a b) = 128 - unat (hdc_hamming a b)"
    by (simp add: hdc_similarity_def unat_sub HV_DIMENSIONS_def)
  with le show ?thesis
    by (simp add: hdc_similarity_def hdc_hamming_commute [of a b])
qed

section \<open>Circular permutation: the rotated vector\<close>

lemma mod_16_cases: "x < 32 \<Longrightarrow> x mod 16 = (if x < 16 then x else x - (16::nat))"
  by (simp add: le_mod_geq)

lemma src_byte_iff:
  "j < 16 \<Longrightarrow> bs < 16 \<Longrightarrow> n < 16 \<Longrightarrow> ((j + 16 - bs) mod 16 = n) = (j = (n + bs) mod (16::nat))"
  by (simp add: mod_16_cases) linarith

lemma src_next_byte_iff:
  "j < 16 \<Longrightarrow> bs < 16 \<Longrightarrow> n < 16 \<Longrightarrow>
   ((j + 15 - bs) mod 16 = n) = (j = ((n + bs) mod 16 + 1) mod (16::nat))"
  by (simp add: mod_16_cases) linarith

lemma next_byte_neq: "d < 16 \<Longrightarrow> (d + 1) mod 16 \<noteq> (d::nat)"
  by (simp add: mod_16_cases)

lemma length_rotated [simp]: "length (rotated hv bs k n) = HV_BYTES"
  by (simp add: rotated_def)

lemma nth_rotated:
  "j < 16 \<Longrightarrow> rotated hv bs k n ! j =
     (if (j + 16 - bs) mod 16 < n then push_bit k (hv ! ((j + 16 - bs) mod 16)) else 0)
       OR (if (j + 15 - bs) mod 16 < n then drop_bit (8 - k) (hv ! ((j + 15 - bs) mod 16)) else 0)"
  by (simp add: rotated_def HV_BYTES_def)

lemma drop_bit_8_byte: "drop_bit 8 (w :: 8 word) = 0"
  by (simp add: drop_bit_eq_zero_iff_not_bit_last)

lemma if_less_Suc_or:
  "(if x < Suc n then f x else 0) = (if x < n then f x else 0) OR (if x = n then f n else (0 :: 8 word))"
  by (simp add: less_Suc_eq)

lemma permute_step_rotated:
  assumes bs: "unat byte_shift < 16" and k: "unat bit_shift < 8" and n: "n < 16"
  shows "permute_step hv byte_shift bit_shift n (rotated hv (unat byte_shift) (unat bit_shift) n)
       = rotated hv (unat byte_shift) (unat bit_shift) (Suc n)"
proof (rule hv_eqI)
  let ?bs = "unat byte_shift" and ?k = "unat bit_shift"
  let ?d = "(n + ?bs) mod 16"
  let ?d' = "(?d + 1) mod 16"
  let ?T = "rotated hv ?bs ?k n"
  have d: "?d < 16" and d': "?d' < 16" by simp_all
  have dd': "?d' \<noteq> ?d" by (rule next_byte_neq) simp
  show "length (permute_step hv byte_shift bit_shift n ?T) = HV_BYTES"
    by (simp add: permute_step_def Let_def)
  show "length (rotated hv ?bs ?k (Suc n)) = HV_BYTES" by simp
  fix j assume "j < HV_BYTES"
  then have j: "j < 16" by (simp add: HV_BYTES_def)
  have s1: "((j + 16 - ?bs) mod 16 = n) = (j = ?d)" by (rule src_byte_iff [OF j bs n])
  have s2: "((j + 15 - ?bs) mod 16 = n) = (j = ?d')" by (rule src_next_byte_iff [OF j bs n])
  have new: "rotated hv ?bs ?k (Suc n) ! j =
      (?T ! j OR (if j = ?d then push_bit ?k (hv ! n) else 0))
        OR (if j = ?d' then drop_bit (8 - ?k) (hv ! n) else 0)"
    unfolding nth_rotated [OF j]
      if_less_Suc_or [where f = "\<lambda>x. push_bit ?k (hv ! x)" and x = "(j + 16 - ?bs) mod 16"]
      if_less_Suc_or [where f = "\<lambda>x. drop_bit (8 - ?k) (hv ! x)" and x = "(j + 15 - ?bs) mod 16"]
      s1 s2
    by (simp only: ac_simps)
  show "permute_step hv byte_shift bit_shift n ?T ! j = rotated hv ?bs ?k (Suc n) ! j"
  proof (cases "bit_shift = 0")
    case True
    then have k0: "?k = 0" by simp
    have "(?d + 16 - ?bs) mod 16 = n"
      using src_byte_iff [OF d bs n] by simp
    then have Td: "?T ! ?d = 0"
      by (simp add: nth_rotated [OF d] k0 drop_bit_8_byte)
    show ?thesis
    proof (cases "j = ?d")
      case eq: True
      show ?thesis
        unfolding new using d Td True
        by (simp add: eq permute_step_def Let_def HV_BYTES_def drop_bit_8_byte)
    next
      case neq: False
      show ?thesis
        unfolding new using j neq True
        by (simp add: permute_step_def Let_def HV_BYTES_def drop_bit_8_byte)
    qed
  next
    case False
    then show ?thesis
      unfolding new using j d d' dd'
      by (simp add: permute_step_def Let_def HV_BYTES_def nth_list_update)
  qed
qed


lemma fold_permute_step:
  assumes bs: "unat byte_shift < 16" and k: "unat bit_shift < 8" and n: "n \<le> 16"
  shows "fold (permute_step hv byte_shift bit_shift) [0..<n] zero_vector
       = rotated hv (unat byte_shift) (unat bit_shift) n"
  using n
proof (induction n)
  case 0
  show ?case
    by (simp add: rotated_def zero_vector_def list_eq_iff_nth_eq)
next
  case (Suc n)
  then show ?case
    using permute_step_rotated [OF bs k, of n hv] by simp
qed


lemma bit_byte_high: "8 \<le> x \<Longrightarrow> \<not> bit (w :: 8 word) x"
  using bit_imp_le_length [of w x] by auto

lemma bit_rotated:
  assumes "j < 16" and "m < 8"
  shows "bit (rotated hv bs k 16 ! j) m =
     ((k \<le> m \<and> bit (hv ! ((j + 16 - bs) mod 16)) (m - k))
       \<or> bit (hv ! ((j + 15 - bs) mod 16)) (8 - k + m))"
  using assms by (simp add: nth_rotated bit_or_iff bit_push_bit_iff bit_drop_bit_eq)

lemma mod_128_div_8: "c < 8 \<Longrightarrow> (8 * a + c) mod 128 div 8 = a mod (16::nat)"
  using mod_mult2_eq [of "8 * a + c" 8 16] by simp

lemma mod_128_mod_8: "c < 8 \<Longrightarrow> (8 * a + c) mod 128 mod 8 = (c::nat)"
  using mod_mult2_eq [of "8 * a + c" 8 16] by simp

lemma hv_bit_rotated:
  assumes bs: "bs < 16" and k: "k < 8" and p: "p < 128"
  shows "hv_bit (rotated hv bs k 16) ((p + (8 * bs + k)) mod 128) = hv_bit hv p"
proof -
  define i r where "i = p div 8" and "r = p mod 8"
  have pir: "p = 8 * i + r" and i: "i < 16" and r: "r < 8"
    using p by (simp_all add: i_def r_def)
  have bit_p: "hv_bit hv p = bit (hv ! i) r"
    by (simp add: hv_bit_def i_def r_def)
  show ?thesis
  proof (cases "r + k < 8")
    case True
    have x: "p + (8 * bs + k) = 8 * (i + bs) + (r + k)" by (simp add: pir)
    have j: "(p + (8 * bs + k)) mod 128 div 8 = (i + bs) mod 16"
      and m: "(p + (8 * bs + k)) mod 128 mod 8 = r + k"
      unfolding x using True by (simp_all only: mod_128_div_8 mod_128_mod_8)
    have src: "((i + bs) mod 16 + 16 - bs) mod 16 = i"
      using src_byte_iff [of "(i + bs) mod 16" bs i] bs i by simp
    have "hv_bit (rotated hv bs k 16) ((p + (8 * bs + k)) mod 128)
        = bit (rotated hv bs k 16 ! ((i + bs) mod 16)) (r + k)"
      by (simp only: hv_bit_def j m)
    also have "\<dots> = bit (hv ! i) r"
      using True by (simp add: bit_rotated src bit_byte_high)
    finally show ?thesis by (simp only: bit_p)
  next
    case False
    then have x: "p + (8 * bs + k) = 8 * (i + bs + 1) + (r + k - 8)" by (simp add: pir)
    have c: "r + k - 8 < 8" using r k by simp
    have j: "(p + (8 * bs + k)) mod 128 div 8 = (i + bs + 1) mod 16"
      and m: "(p + (8 * bs + k)) mod 128 mod 8 = r + k - 8"
      unfolding x using c by (simp_all only: mod_128_div_8 mod_128_mod_8)
    have "(i + bs + 1) mod 16 = ((i + bs) mod 16 + 1) mod 16"
      by (simp only: mod_add_left_eq)
    then have src: "((i + bs + 1) mod 16 + 15 - bs) mod 16 = i"
      using src_next_byte_iff [of "(i + bs + 1) mod 16" bs i] bs i by simp
    have idx: "8 - k + (r + k - 8) = r" and nle: "\<not> k \<le> r + k - 8"
      using False r k by simp_all
    have "hv_bit (rotated hv bs k 16) ((p + (8 * bs + k)) mod 128)
        = bit (rotated hv bs k 16 ! ((i + bs + 1) mod 16)) (r + k - 8)"
      by (simp only: hv_bit_def j m)
    also have "\<dots> = bit (hv ! i) r"
      using c by (simp add: bit_rotated src idx nle del: One_nat_def)
    finally show ?thesis by (simp only: bit_p)
  qed
qed


lemma hdc_permute_rotated:
  assumes len: "length hv = HV_BYTES" and s: "s \<noteq> 0"
  shows "hdc_permute hv s = rotated hv (unat s mod 128 div 8) (unat s mod 8) 16"
proof -
  have bs: "unat (s mod HV_DIMENSIONS div 8) = unat s mod 128 div 8"
    and k: "unat (s mod HV_DIMENSIONS mod 8) = unat s mod 8"
    by (simp_all add: HV_DIMENSIONS_def unat_div unat_mod mod_mod_cancel)
  have "unat (s mod HV_DIMENSIONS div 8) < 16" and "unat (s mod HV_DIMENSIONS mod 8) < 8"
    unfolding bs k by simp_all
  then have "fold (permute_step hv (s mod HV_DIMENSIONS div 8) (s mod HV_DIMENSIONS mod 8))
        [0..<HV_BYTES] (hdc_clear (replicate HV_BYTES 0))
      = rotated hv (unat s mod 128 div 8) (unat s mod 8) 16"
    using fold_permute_step [of "s mod HV_DIMENSIONS div 8" "s mod HV_DIMENSIONS mod 8" 16 hv]
    by (simp add: hdc_clear_eq HV_BYTES_def bs k)
  then show ?thesis
    using s len by (simp add: hdc_permute_def Let_def hdc_copy_eq)
qed

lemma length_hdc_permute: "length hv = HV_BYTES \<Longrightarrow> length (hdc_permute hv s) = HV_BYTES"
  by (cases "s = 0") (simp_all add: hdc_permute_rotated, simp add: hdc_permute_def)

lemma hv_bit_hdc_permute:
  assumes len: "length hv = HV_BYTES" and p: "p < 8 * HV_BYTES"
  shows "hv_bit (hdc_permute hv s) ((p + unat s) mod 128) = hv_bit hv p"
proof (cases "s = 0")
  case True
  then show ?thesis using p by (simp add: hdc_permute_def HV_BYTES_def)
next
  case False
  have "8 * (unat s mod 128 div 8) + unat s mod 8 = unat s mod 128"
    using mult_div_mod_eq [of 8 "unat s mod 128"] by (simp add: mod_mod_cancel)
  moreover have "(p + unat s) mod 128 = (p + unat s mod 128) mod 128"
    by (simp only: mod_add_right_eq)
  ultimately show ?thesis
    using hv_bit_rotated [of "unat s mod 128 div 8" "unat s mod 8" p hv] p
    by (simp add: hdc_permute_rotated [OF len False] HV_BYTES_def)
qed

lemma mod_128_cases: "x < 256 \<Longrightarrow> x mod 128 = (if x < 128 then x else x - (128::nat))"
  by (simp add: le_mod_geq)

lemma rotate_back: "p < 128 \<Longrightarrow> t < 128 \<Longrightarrow> ((p + t) mod 128 + 128 - t) mod 128 = (p::nat)"
  by (simp add: mod_128_cases)

lemma rotate_forth: "q < 128 \<Longrightarrow> t < 128 \<Longrightarrow> ((q + 128 - t) mod 128 + t) mod 128 = (q::nat)"
  by (simp add: mod_128_cases)

lemma set_bits_card: "set_bits hv = card {p. p < 8 * HV_BYTES \<and> hv_bit hv p}"
proof -
  have "{p. hv_bit hv p} \<inter> set [0..<8 * HV_BYTES] = {p. p < 8 * HV_BYTES \<and> hv_bit hv p}"
    by auto
  then show ?thesis
    using distinct_length_filter [of "[0..<8 * HV_BYTES]" "hv_bit hv"]
    by (simp add: set_bits_def)
qed

lemma set_bits_hdc_permute:
  assumes len: "length hv = HV_BYTES"
  shows "set_bits (hdc_permute hv s) = set_bits hv"
proof -
  define t where "t = unat s mod 128"
  have t: "t < 128" by (simp add: t_def)
  let ?f = "\<lambda>p. (p + t) mod 128"
  let ?g = "\<lambda>q. (q + 128 - t) mod 128"
  let ?A = "{p. p < 8 * HV_BYTES \<and> hv_bit hv p}"
  let ?B = "{q. q < 8 * HV_BYTES \<and> hv_bit (hdc_permute hv s) q}"
  have f: "\<And>p. (p + unat s) mod 128 = ?f p"
    unfolding t_def by (simp only: mod_add_right_eq)
  have bits: "\<And>p. p < 128 \<Longrightarrow> hv_bit (hdc_permute hv s) (?f p) = hv_bit hv p"
    using hv_bit_hdc_permute [OF len, of _ s] by (simp add: f HV_BYTES_def)
  have "bij_betw ?f ?A ?B"
  proof (rule bij_betw_byWitness [where f' = ?g])
    show "\<forall>a\<in>?A. ?g (?f a) = a"
      using t by (simp add: rotate_back HV_BYTES_def)
    show "\<forall>a'\<in>?B. ?f (?g a') = a'"
      using t by (simp add: rotate_forth HV_BYTES_def)
    show "?f ` ?A \<subseteq> ?B"
      using bits by (auto simp: HV_BYTES_def)
    show "?g ` ?B \<subseteq> ?A"
    proof
      fix x assume "x \<in> ?g ` ?B"
      then obtain q where q: "q < 128" "hv_bit (hdc_permute hv s) q" and x: "x = ?g q"
        by (auto simp: HV_BYTES_def)
      have "x < 128" by (simp add: x)
      moreover have "?f x = q" using q(1) t by (simp add: x rotate_forth)
      ultimately have "hv_bit hv x" using bits [of x] q(2) by simp
      with \<open>x < 128\<close> show "x \<in> ?A" by (simp add: HV_BYTES_def)
    qed
  qed
  then have "card ?A = card ?B" by (rule bij_betw_same_card)
  then show ?thesis by (simp add: set_bits_card)
qed

text \<open>
  C2. For every hypervector and every shift \<open>s\<close>, \<open>hdc_permute\<close> rotates the 128 bits
  left by \<open>s mod 128\<close>: the bit at position \<open>p\<close> of the input is the bit at position
  \<open>(p + s) mod 128\<close> of the output, across byte boundaries and from the last byte into
  the first. Shifts 0 and 128 leave the vector unchanged.
\<close>

theorem hdc_permute_rotates_left:
  assumes "length hv = HV_BYTES"
  shows "length (hdc_permute hv s) = HV_BYTES
       \<and> (\<forall>p < 8 * HV_BYTES. hv_bit (hdc_permute hv s) ((p + unat s) mod 128) = hv_bit hv p)
       \<and> hdc_permute hv 0 = hv
       \<and> hdc_permute hv 128 = hv"
proof -
  have "hdc_permute hv 128 = hv"
  proof (rule hv_bit_eqI)
    show "length (hdc_permute hv 128) = HV_BYTES" using assms by (rule length_hdc_permute)
    show "length hv = HV_BYTES" by (rule assms)
    fix p assume "p < 8 * HV_BYTES"
    then show "hv_bit (hdc_permute hv 128) p = hv_bit hv p"
      using hv_bit_hdc_permute [OF assms, of p 128] by (simp add: HV_BYTES_def)
  qed
  moreover have "hdc_permute hv 0 = hv" by (simp add: hdc_permute_def)
  ultimately show ?thesis
    using assms by (simp add: length_hdc_permute hv_bit_hdc_permute)
qed


theorem hdc_permute_rotates_left_witness:
  "length (hdc_permute (0xFF # replicate 15 0) 11) = HV_BYTES
   \<and> hv_bit (hdc_permute (0xFF # replicate 15 0) 11) ((7 + unat (11 :: 8 word)) mod 128)
       = hv_bit (0xFF # replicate 15 0) 7
   \<and> hdc_permute (0xFF # replicate 15 0) 0 = 0xFF # replicate 15 0
   \<and> hdc_permute (0xFF # replicate 15 0) 128 = 0xFF # replicate 15 0"
proof -
  have len: "length (0xFF # replicate 15 (0 :: 8 word)) = HV_BYTES"
    by (simp add: HV_BYTES_def)
  have p: "(7 :: nat) < 8 * HV_BYTES"
    by (simp add: HV_BYTES_def)
  from hdc_permute_rotates_left [OF len, of 11] p show ?thesis
    by blast
qed

text \<open>
  C3. For every hypervector \<open>a\<close> and every shift \<open>s\<close>, the population count of
  \<open>hdc_permute a s\<close> is that of \<open>a\<close>.
\<close>

theorem hdc_popcount_permute:
  assumes "length a = HV_BYTES"
  shows "hdc_popcount (hdc_permute a s) = hdc_popcount a"
proof -
  have "unat (hdc_popcount (hdc_permute a s)) = unat (hdc_popcount a)"
    using assms by (simp add: hdc_popcount_set_bits set_bits_hdc_permute)
  then show ?thesis by (simp add: word_unat_eq_iff)
qed


theorem hdc_popcount_permute_witness:
  "hdc_popcount (hdc_permute [1, 2, 3, 4, 5, 6, 7, 8, 9, 10, 11, 12, 13, 14, 15, 0x80] 77)
     = hdc_popcount [1, 2, 3, 4, 5, 6, 7, 8, 9, 10, 11, 12, 13, 14, 15, 0x80]"
  using hdc_popcount_permute [of "[1, 2, 3, 4, 5, 6, 7, 8, 9, 10, 11, 12, 13, 14, 15, 0x80]" 77]
  by (simp add: HV_BYTES_def)

section \<open>Copying\<close>

lemma memcpy_mem_same: "memcpy_mem m p p n = m"
  unfolding memcpy_mem_def by (induction n) simp_all

lemma memcpy_mem_disjoint:
  "dest + n \<le> src \<or> src + n \<le> dest \<Longrightarrow>
   memcpy_mem m dest src n =
     (\<lambda>a. if dest \<le> a \<and> a < dest + n then m (src + (a - dest)) else m a)"
  unfolding memcpy_mem_def
  by (induction n) (auto simp: fun_eq_iff)

lemma hdc_copy_mem_disjoint:
  assumes "dest + HV_BYTES \<le> src \<or> src + HV_BYTES \<le> dest"
  shows "load_hv (hdc_copy_mem m dest src) dest = hdc_copy (load_hv m dest) (load_hv m src)"
    and "load_hv (hdc_copy_mem m dest src) src = load_hv m src"
  using assms
  by (auto simp: hdc_copy_mem_def memcpy_mem_disjoint load_hv_def hdc_copy_eq)

text \<open>
  C10. \<open>hdc_copy\<close> is safe when \<open>dest\<close> and \<open>src\<close> are the same buffer: for every memory
  and every address \<open>x\<close>, the byte-wise copy of the buffer at \<open>x\<close> onto itself returns and
  leaves the memory, and so the vector at \<open>x\<close>, as it was.
\<close>

theorem hdc_copy_same_buffer:
  "hdc_copy_mem m x x = m \<and> load_hv (hdc_copy_mem m x x) x = load_hv m x"
  by (simp add: hdc_copy_mem_def memcpy_mem_same)

section \<open>Thermometer encoding: the encoded vector\<close>

lemma hdc_encode_thermometer_saturated:
  "length hv = HV_BYTES \<Longrightarrow> max_value \<le> val \<Longrightarrow>
   hdc_encode_thermometer hv val max_value = Inr all_ones_vector"
  by (simp add: hdc_encode_thermometer_def Let_def hdc_clear_eq hdc_fill_eq zero_vector_def
      all_ones_vector_def)

lemma spec_level_less:
  "val < max_value \<Longrightarrow> spec_level val max_value < 128"
  unfolding spec_level_def
  by (simp add: word_less_nat_alt less_mult_imp_div_less mult.commute)

lemma unat_ucast_16_32: "unat (ucast (w :: 16 word) :: 32 word) = unat w"
proof -
  have "unat w < 2 ^ 16" using unsigned_less [of w] by simp
  then have "unat w < 2 ^ 32" by simp
  then show ?thesis by (simp add: unsigned_ucast_eq take_bit_nat_eq_self)
qed

lemma unat_scaled: "unat (ucast (val :: 16 word) * THERMO_LEVELS) = unat val * 128"
proof -
  have "unat val < 2 ^ 16" using unsigned_less [of val] by simp
  then have "unat val * 128 < 2 ^ 32" by simp
  then show ?thesis
    by (simp add: THERMO_LEVELS_def unat_word_ariths unat_ucast_16_32)
qed

lemma udiv32_level:
  assumes "val < max_value"
  shows "\<exists>q. udiv32 (ucast val * THERMO_LEVELS) (ucast max_value) = Inr q
           \<and> unat (ucast q :: 8 word) = spec_level val max_value"
proof -
  have "unat (ucast max_value :: 32 word) \<noteq> 0"
    using assms by (simp add: unat_ucast_16_32 word_less_nat_alt)
  then have nz: "(ucast max_value :: 32 word) \<noteq> 0"
    by (simp add: unat_eq_0)
  let ?q = "(ucast val * THERMO_LEVELS) div (ucast max_value :: 32 word)"
  have q: "unat ?q = spec_level val max_value"
    by (simp add: unat_div unat_scaled unat_ucast_16_32 spec_level_def)
  have "spec_level val max_value < 2 ^ 8"
    using spec_level_less [OF assms] by simp
  then have "unat (ucast ?q :: 8 word) = spec_level val max_value"
    using q by (simp add: unsigned_ucast_eq take_bit_nat_eq_self)
  then show ?thesis using nz by (simp add: udiv32_def)
qed

lemma fold_fill_step:
  "k \<le> length h \<Longrightarrow>
   fold fill_step [0..<k] (Inr h) = Inr (replicate k 0xFF @ drop k h)"
proof (induction k)
  case 0
  then show ?case by simp
next
  case (Suc k)
  then have k: "k < length h" by simp
  have "(replicate k (0xFF :: 8 word) @ drop k h)[k := 0xFF] = replicate k 0xFF @ (drop k h)[0 := 0xFF]"
    by (simp add: list_update_append)
  also have "(drop k h)[0 := 0xFF] = 0xFF # drop (Suc k) h"
    using k by (simp add: Cons_nth_drop_Suc [symmetric])
  finally show ?case
    using Suc k by (simp add: fill_step_def store_byte_def replicate_append_same)
qed


lemma hdc_encode_thermometer_level:
  assumes len: "length hv = HV_BYTES" and lt: "val < max_value"
  shows "hdc_encode_thermometer hv val max_value = Inr (spec_thermometer (spec_level val max_value))"
proof -
  obtain q where q: "udiv32 (ucast val * THERMO_LEVELS) (ucast max_value) = Inr q"
    and lv: "unat (ucast q :: 8 word) = spec_level val max_value"
    using udiv32_level [OF lt] by blast
  define L where "L = spec_level val max_value"
  have L: "L < 128" using spec_level_less [OF lt] by (simp add: L_def)
  have fb: "unat ((ucast q :: 8 word) div 8) = L div 8"
    by (simp add: unat_div lv L_def)
  have rb: "unat ((ucast q :: 8 word) mod 8) = L mod 8"
    by (simp add: unat_mod lv L_def)
  have fb16: "L div 8 < 16" using L by simp
  have nle: "\<not> max_value \<le> val" using lt by simp
  have rb0: "((ucast q :: 8 word) mod 8 > 0) = (L mod 8 > 0)"
    using rb by (simp add: word_less_nat_alt)
  have fill: "fold fill_step [0..<L div 8] (Inr (hdc_clear hv))
      = Inr (replicate (L div 8) 0xFF @ replicate (16 - L div 8) 0)"
    using fb16 len by (simp add: fold_fill_step hdc_clear_eq zero_vector_def HV_BYTES_def)
  have res: "hdc_encode_thermometer hv val max_value =
      (if L mod 8 > 0
       then Inr ((replicate (L div 8) 0xFF @ replicate (16 - L div 8) 0)[L div 8 := mask (L mod 8)])
       else Inr (replicate (L div 8) 0xFF @ replicate (16 - L div 8) 0))"
    using nle fb16
    by (simp add: hdc_encode_thermometer_def Let_def q fb rb rb0 fill store_byte_def
        HV_BYTES_def push_bit_of_1 mask_eq_decr_exp)
  have "spec_thermometer L = (if L mod 8 > 0
       then (replicate (L div 8) 0xFF @ replicate (16 - L div 8) 0)[L div 8 := mask (L mod 8)]
       else replicate (L div 8) 0xFF @ replicate (16 - L div 8) 0)"
    using fb16
    by (auto simp: spec_thermometer_def HV_BYTES_def list_eq_iff_nth_eq nth_append nth_list_update)
  then show ?thesis using res by (simp add: L_def)
qed

lemma byte_all_ones: "k < 8 \<Longrightarrow> bit (0xFF :: 8 word) k"
proof -
  have "(0xFF :: 8 word) = mask 8" by (simp add: mask_eq_decr_exp)
  then show "k < 8 \<Longrightarrow> bit (0xFF :: 8 word) k" by (simp only: bit_mask_iff) simp
qed

lemma byte_all_ones_mod: "bit (0xFF :: 8 word) (p mod 8)"
  by (rule byte_all_ones) simp

lemma less_div_mod_8:
  "(p::nat) < L \<longleftrightarrow> p div 8 < L div 8 \<or> (p div 8 = L div 8 \<and> p mod 8 < L mod 8)"
proof -
  define a r b t where "a = p div 8" and "r = p mod 8" and "b = L div 8" and "t = L mod 8"
  have p: "p = 8 * a + r" and L: "L = 8 * b + t" and r: "r < 8" and t: "t < 8"
    by (simp_all add: a_def r_def b_def t_def)
  have "8 * a + r < 8 * b + t \<longleftrightarrow> a < b \<or> (a = b \<and> r < t)"
    using r t by linarith
  then show ?thesis
    unfolding p L by (simp add: a_def r_def b_def t_def)
qed

lemma hv_bit_spec_thermometer:
  assumes "p < 8 * HV_BYTES"
  shows "hv_bit (spec_thermometer L) p = (p < L)"
proof -
  have i: "p div 8 < HV_BYTES" using assms by (simp add: less_mult_imp_div_less mult.commute)
  have k: "p mod 8 < 8" by simp
  show ?thesis
    using i k unfolding less_div_mod_8 [of p L]
    by (simp add: hv_bit_def spec_thermometer_def byte_all_ones_mod bit_mask_iff
        del: bit_numeral_word_iff)
qed

lemma length_filter_less: "length (filter (\<lambda>p. p < L) [0..<n]) = min L n"
  by (induction n) auto

lemma set_bits_spec_thermometer: "L \<le> 128 \<Longrightarrow> set_bits (spec_thermometer L) = L"
proof -
  have "filter (hv_bit (spec_thermometer L)) [0..<8 * HV_BYTES] = filter (\<lambda>p. p < L) [0..<8 * HV_BYTES]"
    by (rule filter_cong) (simp_all add: hv_bit_spec_thermometer)
  then show "L \<le> 128 \<Longrightarrow> set_bits (spec_thermometer L) = L"
    by (simp add: set_bits_def length_filter_less HV_BYTES_def)
qed

lemma spec_thermometer_0: "spec_thermometer 0 = zero_vector"
  by (simp add: spec_thermometer_def zero_vector_def list_eq_iff_nth_eq)

lemma spec_thermometer_128: "spec_thermometer 128 = all_ones_vector"
  by (simp add: spec_thermometer_def all_ones_vector_def list_eq_iff_nth_eq HV_BYTES_def)

lemma length_spec_thermometer: "length (spec_thermometer L) = HV_BYTES"
  by (simp add: spec_thermometer_def)

lemma spec_level_mono: "v1 \<le> v2 \<Longrightarrow> spec_level v1 m \<le> spec_level v2 m"
  by (simp add: spec_level_def word_le_nat_alt div_le_mono)

lemma hdc_encode_thermometer_popcount:
  assumes "length hv = HV_BYTES"
  shows "\<exists>r. hdc_encode_thermometer hv val max_value = Inr r \<and>
     unat (hdc_popcount r) = (if max_value \<le> val then 128 else spec_level val max_value)"
proof (cases "max_value \<le> val")
  case True
  then show ?thesis
    using assms set_bits_spec_thermometer [of 128]
    by (simp add: hdc_encode_thermometer_saturated hdc_popcount_set_bits
        flip: spec_thermometer_128)
next
  case False
  then have lt: "val < max_value" by simp
  then show ?thesis
    using assms set_bits_spec_thermometer [of "spec_level val max_value"] spec_level_less [OF lt]
    by (simp add: hdc_encode_thermometer_level hdc_popcount_set_bits)
qed

text \<open>
  C1. For every output buffer and every \<open>value\<close> and \<open>max_value > 0\<close>: if
  \<open>value \<ge> max_value\<close> the encoder returns the all-ones vector; otherwise the level
  \<open>value * 128 div max_value\<close>, taken on natural numbers, is below 128 and the encoder
  returns the vector whose bit \<open>p\<close> is set exactly when \<open>p < level\<close>. Encoding 0 gives the
  zero vector and encoding \<open>max_value\<close> the all-ones vector.
\<close>

theorem hdc_encode_thermometer_sets_first_bits:
  assumes "length out = HV_BYTES" and "0 < max_value"
  shows "(max_value \<le> val \<longrightarrow> hdc_encode_thermometer out val max_value = Inr all_ones_vector)
       \<and> (val < max_value \<longrightarrow>
            unat val * 128 div unat max_value < 128
            \<and> (\<exists>r. hdc_encode_thermometer out val max_value = Inr r
                 \<and> length r = HV_BYTES
                 \<and> (\<forall>p < 8 * HV_BYTES. hv_bit r p \<longleftrightarrow> p < unat val * 128 div unat max_value)))
       \<and> hdc_encode_thermometer out 0 max_value = Inr zero_vector
       \<and> hdc_encode_thermometer out max_value max_value = Inr all_ones_vector"
proof -
  have sat: "max_value \<le> val \<longrightarrow> hdc_encode_thermometer out val max_value = Inr all_ones_vector"
    using assms(1) by (simp add: hdc_encode_thermometer_saturated)
  have lev: "val < max_value \<longrightarrow>
            unat val * 128 div unat max_value < 128
            \<and> (\<exists>r. hdc_encode_thermometer out val max_value = Inr r
                 \<and> length r = HV_BYTES
                 \<and> (\<forall>p < 8 * HV_BYTES. hv_bit r p \<longleftrightarrow> p < unat val * 128 div unat max_value))"
  proof
    assume lt: "val < max_value"
    show "unat val * 128 div unat max_value < 128
            \<and> (\<exists>r. hdc_encode_thermometer out val max_value = Inr r
                 \<and> length r = HV_BYTES
                 \<and> (\<forall>p < 8 * HV_BYTES. hv_bit r p \<longleftrightarrow> p < unat val * 128 div unat max_value))"
      using spec_level_less [OF lt] hdc_encode_thermometer_level [OF assms(1) lt]
      by (simp add: length_spec_thermometer hv_bit_spec_thermometer spec_level_def)
  qed
  have "spec_level 0 max_value = 0" by (simp add: spec_level_def)
  then have zero: "hdc_encode_thermometer out 0 max_value = Inr zero_vector"
    using hdc_encode_thermometer_level [OF assms(1), of 0 max_value] assms(2)
    by (simp add: spec_thermometer_0)
  have top: "hdc_encode_thermometer out max_value max_value = Inr all_ones_vector"
    using assms(1) by (simp add: hdc_encode_thermometer_saturated)
  from sat lev zero top show ?thesis by blast
qed


theorem hdc_encode_thermometer_sets_first_bits_witness:
  "(\<exists>r. hdc_encode_thermometer (replicate 16 0xAA) 512 1024 = Inr r
        \<and> length r = HV_BYTES
        \<and> (\<forall>p < 8 * HV_BYTES. hv_bit r p \<longleftrightarrow> p < 64))
   \<and> hdc_encode_thermometer (replicate 16 0xAA) 2000 1024 = Inr all_ones_vector
   \<and> hdc_encode_thermometer (replicate 16 0xAA) 0 1024 = Inr zero_vector
   \<and> hdc_encode_thermometer (replicate 16 0xAA) 1024 1024 = Inr all_ones_vector"
  using hdc_encode_thermometer_sets_first_bits [of "replicate 16 0xAA" 1024 512]
    hdc_encode_thermometer_sets_first_bits [of "replicate 16 0xAA" 1024 2000]
  by (simp add: HV_BYTES_def)

text \<open>
  C4. Thermometer encoding is monotone: for \<open>max_value > 0\<close> and \<open>v1 < v2 \<le> max_value\<close>,
  both encodings return a vector, and the population count of the encoding of \<open>v1\<close> is at
  most that of the encoding of \<open>v2\<close>.
\<close>

theorem hdc_encode_thermometer_monotone:
  assumes "length out1 = HV_BYTES" and "length out2 = HV_BYTES"
    and "0 < max_value" and "v1 < v2" and "v2 \<le> max_value"
  shows "\<exists>r1 r2. hdc_encode_thermometer out1 v1 max_value = Inr r1
           \<and> hdc_encode_thermometer out2 v2 max_value = Inr r2
           \<and> hdc_popcount r1 \<le> hdc_popcount r2"
proof -
  obtain r1 where r1: "hdc_encode_thermometer out1 v1 max_value = Inr r1"
    and p1: "unat (hdc_popcount r1) = (if max_value \<le> v1 then 128 else spec_level v1 max_value)"
    using hdc_encode_thermometer_popcount [OF assms(1)] by blast
  obtain r2 where r2: "hdc_encode_thermometer out2 v2 max_value = Inr r2"
    and p2: "unat (hdc_popcount r2) = (if max_value \<le> v2 then 128 else spec_level v2 max_value)"
    using hdc_encode_thermometer_popcount [OF assms(2)] by blast
  have v1: "v1 < max_value" using assms(4,5) by simp
  then have n1: "\<not> max_value \<le> v1" by simp
  have "unat (hdc_popcount r1) \<le> unat (hdc_popcount r2)"
  proof (cases "max_value \<le> v2")
    case True
    then show ?thesis using p1 p2 n1 spec_level_less [OF v1] by simp
  next
    case False
    then show ?thesis using p1 p2 n1 assms(4) spec_level_mono [of v1 v2 max_value] by simp
  qed
  then show ?thesis using r1 r2 by (simp add: word_le_nat_alt)
qed


theorem hdc_encode_thermometer_monotone_witness:
  "\<exists>r1 r2. hdc_encode_thermometer (replicate 16 0) 500 1024 = Inr r1
      \<and> hdc_encode_thermometer (replicate 16 0xFF) 510 1024 = Inr r2
      \<and> hdc_popcount r1 \<le> hdc_popcount r2"
  using hdc_encode_thermometer_monotone [of "replicate 16 0" "replicate 16 0xFF" 1024 500 510]
  by (simp add: HV_BYTES_def)

text \<open>
  C9. With \<open>max_value = 0\<close> the encoder saturates for every value: the comparison
  \<open>value \<ge> max_value\<close> holds, the output is the all-ones vector, and the result is not a
  fault, so the division by \<open>max_value\<close> is not reached.
\<close>

theorem hdc_encode_thermometer_zero_max:
  assumes "length hv = HV_BYTES"
  shows "hdc_encode_thermometer hv val 0 = Inr all_ones_vector"
  using assms by (simp add: hdc_encode_thermometer_saturated)

theorem hdc_encode_thermometer_zero_max_witness:
  "hdc_encode_thermometer (replicate 16 0x5A) 700 0 = Inr all_ones_vector"
  using hdc_encode_thermometer_zero_max [of "replicate 16 0x5A" 700]
  by (simp add: HV_BYTES_def)

section \<open>Multi-channel encoding\<close>

lemma length_all_ones_vector: "length all_ones_vector = HV_BYTES"
  by (simp add: all_ones_vector_def)

lemma length_adc_vector: "length (adc_vector v) = HV_BYTES"
  by (simp add: adc_vector_def length_all_ones_vector length_spec_thermometer)

lemma hdc_encode_adc_vector:
  "length temp = HV_BYTES \<Longrightarrow> hdc_encode_adc temp v = Inr (adc_vector v)"
  by (cases "ADC_MAX \<le> v")
    (simp_all add: hdc_encode_adc_def adc_vector_def hdc_encode_thermometer_saturated
      hdc_encode_thermometer_level)

lemma hdc_encode_thermometer_buffer:
  "length h = HV_BYTES \<Longrightarrow> length h' = HV_BYTES \<Longrightarrow>
   hdc_encode_thermometer h val max_value = hdc_encode_thermometer h' val max_value"
  by (cases "max_value \<le> val")
    (simp_all add: hdc_encode_thermometer_saturated hdc_encode_thermometer_level)

lemma length_channel_pattern: "length (channel_pattern x) = HV_BYTES"
  by (simp add: channel_pattern_def)

lemma multi_channel_step_pattern:
  assumes "ch < length values" and "ch < length basis_vectors" and "length temp = HV_BYTES"
  shows "multi_channel_step values basis_vectors ch (Inr (result, temp))
       = Inr (hdc_bundle result (channel_pattern (values ! ch, basis_vectors ! ch)),
              channel_pattern (values ! ch, basis_vectors ! ch))"
  using assms
  by (simp add: multi_channel_step_def hdc_encode_adc_vector hdc_xor_eq length_adc_vector
      channel_pattern_def Let_def)

lemma fold_multi_channel_step:
  assumes "n \<le> length values" and "n \<le> length basis_vectors" and "length temp = HV_BYTES"
  shows "\<exists>temp'. length temp' = HV_BYTES \<and>
     fold (multi_channel_step values basis_vectors) [0..<n] (Inr (result, temp))
       = Inr (fold (\<lambda>ch r. hdc_bundle r (channel_pattern (values ! ch, basis_vectors ! ch)))
                [0..<n] result, temp')"
  using assms(1,2)
proof (induction n)
  case 0
  then show ?case using assms(3) by simp
next
  case (Suc n)
  then obtain temp' where "length temp' = HV_BYTES"
    and "fold (multi_channel_step values basis_vectors) [0..<n] (Inr (result, temp))
       = Inr (fold (\<lambda>ch r. hdc_bundle r (channel_pattern (values ! ch, basis_vectors ! ch)))
                [0..<n] result, temp')"
    by auto
  then show ?case
    using Suc.prems by (simp add: multi_channel_step_pattern length_channel_pattern)
qed

lemma fold_bundle_bytes:
  "length r = HV_BYTES \<Longrightarrow>
   fold (\<lambda>x r. hdc_bundle r (P x)) xs r
     = map (\<lambda>i. fold (\<lambda>x w. w OR P x ! i) xs (r ! i)) [0..<HV_BYTES]"
proof (induction xs arbitrary: r)
  case Nil
  then show ?case by (simp add: list_eq_iff_nth_eq)
next
  case (Cons x xs)
  then show ?case by (simp add: nth_hdc_bundle cong: map_cong)
qed

lemma fold_or_mset:
  "mset xs = mset ys \<Longrightarrow>
   fold (\<lambda>x (w :: 8 word). w OR f x) xs = fold (\<lambda>x w. w OR f x) ys"
  by (rule fold_multiset_equiv) (simp_all add: fun_eq_iff ac_simps)

lemma fold_bundle_mset:
  assumes "length r = HV_BYTES" and "mset xs = mset ys"
  shows "fold (\<lambda>x r. hdc_bundle r (P x)) xs r = fold (\<lambda>x r. hdc_bundle r (P x)) ys r"
  using assms by (simp add: fold_bundle_bytes fold_or_mset [of xs ys])

lemma fold_channels_zip:
  assumes "length values = n" and "length basis_vectors = n"
  shows "fold (\<lambda>ch r. hdc_bundle r (channel_pattern (values ! ch, basis_vectors ! ch))) [0..<n] r
       = fold (\<lambda>x r. hdc_bundle r (channel_pattern x)) (zip values basis_vectors) r"
proof -
  have "zip values basis_vectors = map (\<lambda>ch. (values ! ch, basis_vectors ! ch)) [0..<n]"
    using assms by (simp add: list_eq_iff_nth_eq)
  then show ?thesis by (simp add: fold_map comp_def)
qed

lemma hdc_encode_multi_channel_zip:
  assumes "length result = HV_BYTES"
    and "length values = unat n" and "length basis_vectors = unat n"
  shows "hdc_encode_multi_channel result values n basis_vectors
       = Inr (fold (\<lambda>x r. hdc_bundle r (channel_pattern x)) (zip values basis_vectors) zero_vector)"
proof -
  obtain temp' where
    "fold (multi_channel_step values basis_vectors) [0..<unat n]
        (Inr (hdc_clear result, replicate HV_BYTES 0))
      = Inr (fold (\<lambda>ch r. hdc_bundle r (channel_pattern (values ! ch, basis_vectors ! ch)))
               [0..<unat n] (hdc_clear result), temp')"
    using fold_multi_channel_step [of "unat n" "values" basis_vectors "replicate HV_BYTES 0"
        "hdc_clear result"] assms(2,3)
    by auto
  then show ?thesis
    using assms by (simp add: hdc_encode_multi_channel_def fold_channels_zip hdc_clear_eq)
qed

lemma mset_reorder_zip:
  assumes "length xs = n" and "length ys = n" and "bij_betw \<pi> {..<n} {..<n}"
  shows "mset (zip (reorder \<pi> xs) (reorder \<pi> ys)) = mset (zip xs ys)"
proof -
  have z: "zip xs ys = map (\<lambda>i. (xs ! i, ys ! i)) [0..<n]"
    using assms(1,2) by (simp add: list_eq_iff_nth_eq)
  have "zip (reorder \<pi> xs) (reorder \<pi> ys) = map (\<lambda>i. (xs ! \<pi> i, ys ! \<pi> i)) [0..<n]"
    using assms(1,2) by (simp add: reorder_def list_eq_iff_nth_eq)
  then have "mset (zip (reorder \<pi> xs) (reorder \<pi> ys))
      = image_mset (\<lambda>i. (xs ! i, ys ! i)) (image_mset \<pi> (mset_set {0..<n}))"
    by (simp add: multiset.map_comp comp_def)
  also have "image_mset \<pi> (mset_set {0..<n}) = mset_set {0..<n}"
    using assms(3) image_mset_mset_set [of \<pi> "{0..<n}"]
    by (simp add: bij_betw_def atLeast0LessThan)
  finally show ?thesis by (simp add: z)
qed

text \<open>
  C7. The result of \<open>hdc_encode_multi_channel\<close> does not depend on the order of the
  channels: for every channel count \<open>n\<close>, arrays of \<open>n\<close> values and \<open>n\<close> basis vectors, and
  every permutation of the channel indices applied to both arrays, the call returns a
  vector, the same one as for the original arrays, whatever the output buffers held.
\<close>

theorem hdc_encode_multi_channel_order:
  assumes "length out = HV_BYTES" and "length out' = HV_BYTES"
    and "length values = unat n" and "length basis_vectors = unat n"
    and "\<forall>b \<in> set basis_vectors. length b = HV_BYTES"
    and "bij_betw \<pi> {..<unat n} {..<unat n}"
  shows "\<exists>r. hdc_encode_multi_channel out' (reorder \<pi> values) n (reorder \<pi> basis_vectors) = Inr r
           \<and> hdc_encode_multi_channel out values n basis_vectors = Inr r"
proof -
  let ?acc = "fold (\<lambda>x r. hdc_bundle r (channel_pattern x))"
  have "length (reorder \<pi> values) = unat n" and "length (reorder \<pi> basis_vectors) = unat n"
    using assms(3,4) by (simp_all add: reorder_def)
  then have "hdc_encode_multi_channel out' (reorder \<pi> values) n (reorder \<pi> basis_vectors)
      = Inr (?acc (zip (reorder \<pi> values) (reorder \<pi> basis_vectors)) zero_vector)"
    using assms(2) by (simp add: hdc_encode_multi_channel_zip)
  moreover have "?acc (zip (reorder \<pi> values) (reorder \<pi> basis_vectors)) zero_vector
      = ?acc (zip values basis_vectors) zero_vector"
    using fold_bundle_mset [OF _ mset_reorder_zip [OF assms(3,4,6)], of zero_vector channel_pattern]
    by (simp add: zero_vector_def)
  moreover have "hdc_encode_multi_channel out values n basis_vectors
      = Inr (?acc (zip values basis_vectors) zero_vector)"
    using assms(1,3,4) by (simp add: hdc_encode_multi_channel_zip)
  ultimately show ?thesis by simp
qed


theorem hdc_encode_multi_channel_order_witness:
  "\<exists>r. hdc_encode_multi_channel (replicate 16 0xFF) [900, 100] 2
          [replicate 16 0xF0, replicate 16 0x0F] = Inr r
      \<and> hdc_encode_multi_channel (replicate 16 0) [100, 900] 2
          [replicate 16 0x0F, replicate 16 0xF0] = Inr r"
proof -
  let ?\<pi> = "\<lambda>i :: nat. 1 - i"
  let ?vs = "[100, 900] :: 16 word list"
  let ?bs = "[replicate 16 0x0F, replicate 16 0xF0] :: hv list"
  have bij: "bij_betw ?\<pi> {..<unat (2 :: 8 word)} {..<unat (2 :: 8 word)}"
    by (rule bij_betw_byWitness [where f' = ?\<pi>]) auto
  have r1: "reorder ?\<pi> ?vs = [900, 100]" and r2: "reorder ?\<pi> ?bs = [replicate 16 0xF0, replicate 16 0x0F]"
    by (simp_all add: reorder_def upt_rec)
  have "\<exists>r. hdc_encode_multi_channel (replicate 16 0xFF) (reorder ?\<pi> ?vs) 2 (reorder ?\<pi> ?bs) = Inr r
      \<and> hdc_encode_multi_channel (replicate 16 0) ?vs 2 ?bs = Inr r"
    by (rule hdc_encode_multi_channel_order [OF _ _ _ _ _ bij]) (simp_all add: HV_BYTES_def)
  then show ?thesis by (simp only: r1 r2)
qed

section \<open>Binding\<close>

text \<open>
  C8. Binding (byte-wise XOR) is its own inverse and has the zero vector as identity:
  for all hypervectors \<open>x\<close> and \<open>b\<close>, whatever the output buffers held before,
  \<open>bind (bind x b) b = x\<close>, \<open>bind x zero = x\<close> and \<open>bind x x = zero\<close>.
\<close>

theorem hdc_xor_self_inverse:
  assumes "length x = HV_BYTES" and "length b = HV_BYTES"
    and "length r1 = HV_BYTES" and "length r2 = HV_BYTES"
  shows "hdc_xor r2 (hdc_xor r1 x b) b = x
       \<and> hdc_xor r1 x zero_vector = x
       \<and> hdc_xor r1 x x = zero_vector"
proof -
  have "hdc_xor r2 (hdc_xor r1 x b) b = x"
    using assms by (intro hv_eqI) (simp_all add: nth_hdc_xor bit.xor_self xor.assoc)
  moreover have "hdc_xor r1 x zero_vector = x"
    using assms by (intro hv_eqI) (simp_all add: nth_hdc_xor zero_vector_def)
  moreover have "hdc_xor r1 x x = zero_vector"
    using assms by (intro hv_eqI) (simp_all add: nth_hdc_xor zero_vector_def)
  ultimately show ?thesis by simp
qed

theorem hdc_xor_self_inverse_witness:
  "hdc_xor (replicate 16 0) (hdc_xor (replicate 16 0) (replicate 16 0xF0) (replicate 16 0x3C))
       (replicate 16 0x3C) = replicate 16 0xF0
   \<and> hdc_xor (replicate 16 0) (replicate 16 0xF0) zero_vector = replicate 16 0xF0
   \<and> hdc_xor (replicate 16 0) (replicate 16 0xF0) (replicate 16 0xF0) = zero_vector"
  using hdc_xor_self_inverse [of "replicate 16 0xF0" "replicate 16 0x3C"
      "replicate 16 0" "replicate 16 0"]
  by (simp add: HV_BYTES_def)

end
